theory Spec2Isabelle
  imports Complex_Main "HOL-Library.Multiset"
begin

section \<open>Transactions and the scope-extracting visitor\<close>

text \<open>
  The header \<^verbatim>\<open>block_schedule.hpp\<close> reads three members of the transaction types only:
  \<^verbatim>\<open>trx_p->scope\<close>, \<^verbatim>\<open>trx_p->messages\<close> and \<^verbatim>\<open>m.code\<close>. The types themselves are declared
  in \<^verbatim>\<open>transaction.hpp\<close>; they are records here, and every member the header does not
  read lives in the extension slot of the record scheme, which stays a type parameter.
  \<open>'n\<close> is \<^verbatim>\<open>AccountName\<close>: all the header asks of it is the order \<^verbatim>\<open>std::set\<close> needs.
\<close>

record 'n Message =
  code :: 'n

record 'n Transaction =
  scope :: "'n list"
  messages :: "'n Message list"

text \<open>
  \<^verbatim>\<open>using pending_transaction = static_variant<SignedTransaction const *,
  GeneratedTransaction const *>\<close>: a tagged union of two read-only references. A
  reference is modelled by the object it refers to; \<open>'s\<close> and \<open>'g\<close> are the members
  that \<^verbatim>\<open>SignedTransaction\<close> and \<^verbatim>\<open>GeneratedTransaction\<close> add to \<^verbatim>\<open>Transaction\<close>.
\<close>

datatype ('n, 's, 'g) pending_transaction =
    Signed "('n, 's) Transaction_scheme"
  | Generated "('n, 'g) Transaction_scheme"

subsection \<open>\<^verbatim>\<open>std::set<AccountName>\<close>\<close>

text \<open>
  A \<^verbatim>\<open>std::set\<close> is kept as the list of its elements in iteration order, that is
  strictly increasing. \<^verbatim>\<open>insert\<close> compares with \<^verbatim>\<open><\<close> only and leaves the set as it is
  when an equivalent element is already there.
\<close>

fun set_insert :: "'n::linorder \<Rightarrow> 'n list \<Rightarrow> 'n list" where
  "set_insert x [] = [x]"
| "set_insert x (y # ys) =
     (if x < y then x # y # ys
      else if y < x then y # set_insert x ys
      else y # ys)"

text \<open>The range constructor \<^verbatim>\<open>std::set(first, last)\<close> inserts the elements one by one.\<close>

definition set_from_range :: "'n::linorder list \<Rightarrow> 'n list" where
  "set_from_range xs = foldl (\<lambda>s x. set_insert x s) [] xs"

subsection \<open>\<^verbatim>\<open>scope_extracting_visitor::operator()\<close>\<close>

text \<open>
  The body of the template, with its frame written out: \<open>trx_p\<close> is the object behind
  the \<^verbatim>\<open>const\<close> pointer the visitor is applied to, \<open>unique_names\<close> the local set the
  loop inserts into.
  \<^verbatim>\<open>
  std::set<AccountName> unique_names(trx_p->scope.begin(), trx_p->scope.end());
  for (auto const &m : trx_p->messages) {
     unique_names.insert(m.code);
  }
  return unique_names;
  \<close>
\<close>

record ('n, 'z) visitor_frame =
  trx_p :: "('n, 'z) Transaction_scheme"
  unique_names :: "'n list"

definition visitor_enter ::
  "('n::linorder, 'z) Transaction_scheme \<Rightarrow> ('n, 'z) visitor_frame" where
  "visitor_enter t = \<lparr>trx_p = t, unique_names = set_from_range (scope t)\<rparr>"

definition visitor_insert ::
  "('n::linorder, 'z) visitor_frame \<Rightarrow> 'n Message \<Rightarrow> ('n, 'z) visitor_frame" where
  "visitor_insert f m = f\<lparr>unique_names := set_insert (code m) (unique_names f)\<rparr>"

definition visitor_run ::
  "('n::linorder, 'z) Transaction_scheme \<Rightarrow> ('n, 'z) visitor_frame" where
  "visitor_run t = foldl visitor_insert (visitor_enter t) (messages t)"

definition scope_extracting_visitor_op ::
  "('n::linorder, 'z) Transaction_scheme \<Rightarrow> 'n list" where
  "scope_extracting_visitor_op t = unique_names (visitor_run t)"

text \<open>\<^verbatim>\<open>trx.visit(scope_extracting_visitor())\<close>: the variant picks the instance of the template.\<close>

fun visit_scope :: "('n::linorder, 's, 'g) pending_transaction \<Rightarrow> 'n list" where
  "visit_scope (Signed t) = scope_extracting_visitor_op t"
| "visit_scope (Generated t) = scope_extracting_visitor_op t"

text \<open>
  The object behind the pointer once the call has returned, in the variant it came in.
\<close>

fun visit_after ::
  "('n::linorder, 's, 'g) pending_transaction \<Rightarrow> ('n, 's, 'g) pending_transaction" where
  "visit_after (Signed t) = Signed (trx_p (visitor_run t))"
| "visit_after (Generated t) = Generated (trx_p (visitor_run t))"

section \<open>The schedule\<close>

text \<open>
  \<^verbatim>\<open>struct thread_schedule { vector<pending_transaction> transactions; };\<close>
  \<^verbatim>\<open>using cycle_schedule = vector<thread_schedule>;\<close>
  \<^verbatim>\<open>struct block_schedule { ... vector<cycle_schedule> cycles; ... };\<close>
\<close>

record ('n, 's, 'g) thread_schedule =
  transactions :: "('n, 's, 'g) pending_transaction list"

type_synonym ('n, 's, 'g) cycle_schedule = "('n, 's, 'g) thread_schedule list"

record ('n, 's, 'g) block_schedule =
  cycles :: "('n, 's, 'g) cycle_schedule list"

datatype error = ConfigurationError | OutOfBounds

section \<open>The fuzzing decorators\<close>

subsection \<open>\<^verbatim>\<open>std::vector\<close> and \<^verbatim>\<open>std::copy_if\<close>\<close>

text \<open>
  A vector is the list of its elements (its size is the length of the list) and the
  number of elements its storage has room for. \<^verbatim>\<open>reserve\<close> grows the storage and
  leaves the size alone. Writing through the iterator \<^verbatim>\<open>begin() + k\<close> assigns to
  element \<open>k\<close>, which exists only when \<open>k\<close> is below the size; any other write is
  undefined behaviour, the error \<open>OutOfBounds\<close> here.
\<close>

record 'a vector =
  elems :: "'a list"
  capacity :: nat

definition vector_empty :: "'a vector" where
  "vector_empty = \<lparr>elems = [], capacity = 0\<rparr>"

definition reserve :: "nat \<Rightarrow> 'a vector \<Rightarrow> 'a vector" where
  "reserve n v = v\<lparr>capacity := max n (capacity v)\<rparr>"

definition iterator_write :: "'a vector \<Rightarrow> nat \<Rightarrow> 'a \<Rightarrow> error + 'a vector" where
  "iterator_write v k x =
     (if k < length (elems v) then Inr (v\<lparr>elems := (elems v)[k := x]\<rparr>) else Inl OutOfBounds)"

text \<open>
  \<^verbatim>\<open>std::copy_if(first, last, d_first, pred)\<close>: every element the predicate accepts is
  written through the output iterator, which then moves on. The predicate of
  \<^verbatim>\<open>lossy_functor\<close> draws from the generator, so the generator state \<open>r\<close> is threaded
  through the calls. The result is the destination, the offset the output iterator
  ends at, and the generator.
\<close>

fun copy_if ::
  "'a list \<Rightarrow> 'a vector \<Rightarrow> nat \<Rightarrow> ('a \<Rightarrow> 'r \<Rightarrow> bool \<times> 'r) \<Rightarrow> 'r \<Rightarrow>
   error + ('a vector \<times> nat \<times> 'r)" where
  "copy_if [] dest k pred r = Inr (dest, k, r)"
| "copy_if (x # xs) dest k pred r =
     (case pred x r of
        (True, r') \<Rightarrow>
          (case iterator_write dest k x of
             Inl e \<Rightarrow> Inl e
           | Inr dest' \<Rightarrow> copy_if xs dest' (Suc k) pred r')
      | (False, r') \<Rightarrow> copy_if xs dest k pred r')"

subsection \<open>\<^verbatim>\<open>lossy_functor::operator()\<close>\<close>

text \<open>
  \<^verbatim>\<open>
  std::random_device rd;
  std::mt19937 rng(rd());
  std::uniform_real_distribution<> dist(0, 1);
  double const cutoff = (double)NUM / (double)DEN;
  auto copy = std::vector<pending_transaction>();
  copy.reserve(transactions.size());
  std::copy_if (transactions.begin(), transactions.end(), copy.begin(),
     [&](pending_transaction const& trx){ return dist(rng) >= cutoff; });
  return next(copy, properties);
  \<close>
  The generator and the distribution are library code: \<open>rng\<close> is the state of the
  freshly seeded generator and \<open>draw\<close> stands for \<^verbatim>\<open>dist(rng)\<close>, which takes one value
  from the generator and advances it. A finite \<^verbatim>\<open>double\<close> is read as the real number
  it stands for, and the quotient \<^verbatim>\<open>(double)NUM / (double)DEN\<close> with \<open>DEN \<noteq> 0\<close> as the
  exact quotient (the rounding to the nearest \<^verbatim>\<open>double\<close> is not modelled). With
  \<open>DEN = 0\<close> the quotient is no real number: in IEEE arithmetic it is \<open>+inf\<close> for a
  positive \<open>NUM\<close>, \<open>-inf\<close> for a negative one and \<open>NaN\<close> for \<open>NUM = 0\<close>, and a draw
  compares \<^verbatim>\<open>>=\<close> to it only when it is \<open>-inf\<close>. The parameter \<^verbatim>\<open>transactions\<close> is written \<open>trxs\<close>, the name being that
  of the member of \<^verbatim>\<open>thread_schedule\<close>.
\<close>

definition lossy_pred :: "real \<Rightarrow> ('r \<Rightarrow> real \<times> 'r) \<Rightarrow> 'a \<Rightarrow> 'r \<Rightarrow> bool \<times> 'r" where
  "lossy_pred cutoff draw trx r = (case draw r of (v, r') \<Rightarrow> (v \<ge> cutoff, r'))"

definition lossy_pred_div0 :: "int \<Rightarrow> ('r \<Rightarrow> real \<times> 'r) \<Rightarrow> 'a \<Rightarrow> 'r \<Rightarrow> bool \<times> 'r" where
  "lossy_pred_div0 NUM draw trx r = (case draw r of (v, r') \<Rightarrow> (NUM < 0, r'))"

definition lossy_functor ::
  "int \<Rightarrow> int \<Rightarrow> ('a list \<Rightarrow> 'p \<Rightarrow> 'b) \<Rightarrow> ('r \<Rightarrow> real \<times> 'r) \<Rightarrow> 'r \<Rightarrow>
   'a list \<Rightarrow> 'p \<Rightarrow> error + 'b" where
  "lossy_functor NUM DEN next draw rng trxs properties =
     (let pred = (if DEN = 0 then lossy_pred_div0 NUM draw
                  else lossy_pred (real_of_int NUM / real_of_int DEN) draw);
          copy = reserve (length trxs) vector_empty
      in case copy_if trxs copy 0 pred rng of
           Inl e \<Rightarrow> Inl e
         | Inr (copy', k, rng') \<Rightarrow> Inr (next (elems copy') properties))"

text \<open>
  What the specification says \<^verbatim>\<open>lossy\<close> hands on: the transactions whose draw, one per
  candidate in input order, is at least the cutoff.
\<close>

fun retained :: "real \<Rightarrow> ('r \<Rightarrow> real \<times> 'r) \<Rightarrow> 'r \<Rightarrow> 'a list \<Rightarrow> 'a list" where
  "retained cutoff draw r [] = []"
| "retained cutoff draw r (x # xs) =
     (case draw r of (v, r') \<Rightarrow>
        if v \<ge> cutoff then x # retained cutoff draw r' xs else retained cutoff draw r' xs)"

text \<open>A generator that replays a given list of draws, for evaluating the model.\<close>

fun replay :: "real list \<Rightarrow> real \<times> real list" where
  "replay [] = (0, [])"
| "replay (v # vs) = (v, vs)"

subsection \<open>\<^verbatim>\<open>shuffled_functor::operator()\<close>\<close>

text \<open>
  \<^verbatim>\<open>std::shuffle\<close> is library code. It is modelled as the loop the library
  implementations run: for \<open>i\<close> from the last index down to 1, exchange element \<open>i\<close>
  with element \<open>j\<close>, where \<open>j\<close> is drawn from \<open>0..i\<close>. \<open>pick i\<close> is that draw
  (\<^verbatim>\<open>uniform_int_distribution(0, i)(rng)\<close>), taken modulo \<open>i + 1\<close> so that a stand-in
  for it cannot leave the range.
\<close>

definition swap_at :: "nat \<Rightarrow> nat \<Rightarrow> 'a list \<Rightarrow> 'a list" where
  "swap_at i j xs = xs[i := xs ! j, j := xs ! i]"

fun shuffle_from :: "(nat \<Rightarrow> 'r \<Rightarrow> nat \<times> 'r) \<Rightarrow> nat \<Rightarrow> 'a list \<Rightarrow> 'r \<Rightarrow> 'a list \<times> 'r" where
  "shuffle_from pick 0 xs r = (xs, r)"
| "shuffle_from pick (Suc i) xs r =
     (case pick (Suc i) r of
        (j, r') \<Rightarrow> shuffle_from pick i (swap_at (Suc i) (j mod Suc (Suc i)) xs) r')"

definition std_shuffle :: "(nat \<Rightarrow> 'r \<Rightarrow> nat \<times> 'r) \<Rightarrow> 'a list \<Rightarrow> 'r \<Rightarrow> 'a list \<times> 'r" where
  "std_shuffle pick xs r = shuffle_from pick (length xs - 1) xs r"

text \<open>
  \<^verbatim>\<open>
  auto copy = std::vector<pending_transaction>(transactions);
  std::shuffle(copy.begin(), copy.end(), rng);
  return next(copy, properties);
  \<close>
  The frame at the call of \<^verbatim>\<open>next\<close>: the caller's vector behind the \<^verbatim>\<open>const\<close>
  reference, and the local copy.
\<close>

record 'a shuffled_frame =
  caller_transactions :: "'a list"
  copy :: "'a list"

definition shuffled_enter :: "'a list \<Rightarrow> 'a shuffled_frame" where
  "shuffled_enter trxs = \<lparr>caller_transactions = trxs, copy = trxs\<rparr>"

definition shuffled_shuffle ::
  "(nat \<Rightarrow> 'r \<Rightarrow> nat \<times> 'r) \<Rightarrow> 'r \<Rightarrow> 'a shuffled_frame \<Rightarrow> 'a shuffled_frame" where
  "shuffled_shuffle pick rng f = f\<lparr>copy := fst (std_shuffle pick (copy f) rng)\<rparr>"

definition shuffled_functor ::
  "('a list \<Rightarrow> 'p \<Rightarrow> 'b) \<Rightarrow> (nat \<Rightarrow> 'r \<Rightarrow> nat \<times> 'r) \<Rightarrow> 'r \<Rightarrow> 'a list \<Rightarrow> 'p \<Rightarrow> 'b" where
  "shuffled_functor next pick rng trxs properties =
     next (copy (shuffled_shuffle pick rng (shuffled_enter trxs))) properties"

section \<open>Reflection of the schedule\<close>

text \<open>
  Modelled from the spec: the macro \<^verbatim>\<open>FC_REFLECT\<close> and the serialisation it feeds belong
  to the \<^verbatim>\<open>fc\<close> library, which is not among the sources. The header's two lines
  \<^verbatim>\<open>FC_REFLECT(eos::chain::thread_schedule, (transactions))\<close> and
  \<^verbatim>\<open>FC_REFLECT(eos::chain::block_schedule, (cycles))\<close> list the members that are
  reflected, each under its own name. Following the specification ("exact field names:
  \<^verbatim>\<open>cycles\<close>, and within each cycle-entry, \<^verbatim>\<open>transactions\<close>", "the serialized
  cycle/thread/transaction nesting, not flattened"), a reflected struct is serialised
  as an object with one entry per listed member, keyed by the member's name, and a
  vector as the array of its elements. A pending transaction is a leaf.
\<close>

datatype 'v variant =
    Leaf 'v
  | Array "'v variant list"
  | Object "(string \<times> 'v variant) list"

definition reflected :: "(string \<times> ('x \<Rightarrow> 'v variant)) list \<Rightarrow> 'x \<Rightarrow> 'v variant" where
  "reflected members x = Object (map (\<lambda>(name, get). (name, get x)) members)"

definition thread_schedule_members ::
  "(string \<times> (('n, 's, 'g) thread_schedule \<Rightarrow> ('n, 's, 'g) pending_transaction variant)) list"
  where
  "thread_schedule_members = [(''transactions'', \<lambda>th. Array (map Leaf (transactions th)))]"

definition cycle_to_variant ::
  "('n, 's, 'g) cycle_schedule \<Rightarrow> ('n, 's, 'g) pending_transaction variant" where
  "cycle_to_variant c = Array (map (reflected thread_schedule_members) c)"

definition block_schedule_members ::
  "(string \<times> (('n, 's, 'g) block_schedule \<Rightarrow> ('n, 's, 'g) pending_transaction variant)) list"
  where
  "block_schedule_members = [(''cycles'', \<lambda>s. Array (map cycle_to_variant (cycles s)))]"

definition block_schedule_to_variant ::
  "('n, 's, 'g) block_schedule \<Rightarrow> ('n, 's, 'g) pending_transaction variant" where
  "block_schedule_to_variant s = reflected block_schedule_members s"

text \<open>Reading the nesting back from the serialised form, member by member.\<close>

fun member_names :: "'v variant \<Rightarrow> string list" where
  "member_names (Object entries) = map fst entries"
| "member_names (Leaf v) = []"
| "member_names (Array vs) = []"

fun leaf_of :: "'v variant \<Rightarrow> 'v option" where
  "leaf_of (Leaf v) = Some v"
| "leaf_of (Array vs) = None"
| "leaf_of (Object entries) = None"

fun thread_from_variant ::
  "('n, 's, 'g) pending_transaction variant \<Rightarrow> ('n, 's, 'g) thread_schedule option" where
  "thread_from_variant (Object [(name, Array vs)]) =
     (if name = ''transactions''
      then map_option (\<lambda>ts. \<lparr>transactions = ts\<rparr>) (those (map leaf_of vs))
      else None)"
| "thread_from_variant v = None"

fun cycle_from_variant ::
  "('n, 's, 'g) pending_transaction variant \<Rightarrow> ('n, 's, 'g) cycle_schedule option" where
  "cycle_from_variant (Array vs) = those (map thread_from_variant vs)"
| "cycle_from_variant v = None"

fun block_schedule_from_variant ::
  "('n, 's, 'g) pending_transaction variant \<Rightarrow> ('n, 's, 'g) block_schedule option" where
  "block_schedule_from_variant (Object [(name, Array vs)]) =
     (if name = ''cycles''
      then map_option (\<lambda>cs. \<lparr>cycles = cs\<rparr>) (those (map cycle_from_variant vs))
      else None)"
| "block_schedule_from_variant v = None"

section \<open>The two schedulers\<close>

text \<open>
  Modelled from the spec: the header declares \<^verbatim>\<open>block_schedule::by_threading_conflicts\<close>
  and \<^verbatim>\<open>block_schedule::by_cycling_conflicts\<close>; their bodies, and the type
  \<^verbatim>\<open>global_property_object\<close>, are not among the sources. The definitions of this section
  follow sections 4.2, 4.3, 4.4, 6 and 7 of the specification step by step.
\<close>

text \<open>
  Modelled from the spec: the properties object, "exposing at minimum
  \<^verbatim>\<open>maxCyclesPerBlock: integer\<close> and \<^verbatim>\<open>maxThreadsPerCycle: integer\<close>"; a zero or
  negative limit is a configuration error.
\<close>

record global_property_object =
  maxCyclesPerBlock :: int
  maxThreadsPerCycle :: int

definition valid_properties :: "global_property_object \<Rightarrow> bool" where
  "valid_properties P \<longleftrightarrow> 0 < maxCyclesPerBlock P \<and> 0 < maxThreadsPerCycle P"

text \<open>
  Modelled from the spec: what a scheduler hands back is the schedule and the
  \<open>ForcedConflictWarning\<close>s it emitted, each naming the index of the cycle it is about.
\<close>

record ('n, 's, 'g) scheduled =
  schedule :: "('n, 's, 'g) block_schedule"
  forced_conflicts :: "nat list"

text \<open>
  Modelled from the spec (4.2): two scope sets conflict iff their intersection is not
  empty; threads are compared by the union of the scopes of their transactions.
\<close>

definition conflicts :: "'n list \<Rightarrow> 'n list \<Rightarrow> bool" where
  "conflicts scopeA scopeB \<longleftrightarrow> set scopeA \<inter> set scopeB \<noteq> {}"

definition scope_union :: "'n::linorder list \<Rightarrow> 'n list \<Rightarrow> 'n list" where
  "scope_union scopeA scopeB = foldl (\<lambda>s x. set_insert x s) scopeA scopeB"

definition thread_scope :: "('n::linorder, 's, 'g) thread_schedule \<Rightarrow> 'n list" where
  "thread_scope th = foldl scope_union [] (map visit_scope (transactions th))"

definition new_thread ::
  "('n, 's, 'g) pending_transaction \<Rightarrow> ('n, 's, 'g) thread_schedule" where
  "new_thread trx = \<lparr>transactions = [trx]\<rparr>"

definition thread_append ::
  "('n, 's, 'g) pending_transaction \<Rightarrow> ('n, 's, 'g) thread_schedule \<Rightarrow>
   ('n, 's, 'g) thread_schedule" where
  "thread_append trx th = th\<lparr>transactions := transactions th @ [trx]\<rparr>"

text \<open>
  Modelled from the spec (4.3 step 2): "scan existing threads in creation order; place
  the transaction in the first thread whose cumulative scope does not conflict with the
  transaction's scope, ..., append transaction to that thread". \<open>None\<close> when no thread
  of the cycle accepts.
\<close>

fun first_fit ::
  "('n::linorder, 's, 'g) pending_transaction \<Rightarrow> ('n, 's, 'g) cycle_schedule \<Rightarrow>
   ('n, 's, 'g) cycle_schedule option" where
  "first_fit trx [] = None"
| "first_fit trx (th # ths) =
     (if \<not> conflicts (thread_scope th) (visit_scope trx) then Some (thread_append trx th # ths)
      else map_option ((#) th) (first_fit trx ths))"

text \<open>
  Modelled from the spec (4.3): one transaction placed by \<^verbatim>\<open>by_threading_conflicts\<close>.
  The current cycle is the last one. Step 2 is \<open>first_fit\<close> on it; step 3 opens a new
  thread in it while its thread count is below the maximum; step 4 opens a new cycle
  with a single new thread; when the cycles are exhausted as well the transaction is
  forced "into a new thread of the final cycle even if it exceeds the configured soft
  maximum". An empty transaction list yields zero cycles (8, property 5), so the first
  transaction opens the first cycle.
\<close>

definition threading_place ::
  "global_property_object \<Rightarrow> ('n::linorder, 's, 'g) cycle_schedule list \<Rightarrow>
   ('n, 's, 'g) pending_transaction \<Rightarrow> ('n, 's, 'g) cycle_schedule list" where
  "threading_place P cs trx =
     (if cs = [] then [[new_thread trx]]
      else
        (case first_fit trx (last cs) of
           Some cur \<Rightarrow> butlast cs @ [cur]
         | None \<Rightarrow>
             if int (length (last cs)) < maxThreadsPerCycle P
             then butlast cs @ [last cs @ [new_thread trx]]
             else if int (length cs) < maxCyclesPerBlock P
             then cs @ [[new_thread trx]]
             else butlast cs @ [last cs @ [new_thread trx]]))"

text \<open>
  Modelled from the spec (4.3, 7): invalid properties are rejected at entry; the
  transactions are placed in input order. The specification gives this scheduler no
  \<open>ForcedConflictWarning\<close> (7: "emitted when resource ceilings force the cycling
  scheduler ...").
\<close>

definition by_threading_conflicts ::
  "('n::linorder, 's, 'g) pending_transaction list \<Rightarrow> global_property_object \<Rightarrow>
   error + ('n, 's, 'g) scheduled" where
  "by_threading_conflicts trxs P =
     (if \<not> valid_properties P then Inl ConfigurationError
      else Inr \<lparr>schedule = \<lparr>cycles = foldl (threading_place P) [] trxs\<rparr>,
                forced_conflicts = []\<rparr>)"

text \<open>
  Modelled from the spec (4.4 step 2): the cycles are searched "from the most recent
  cycle backward" for a thread that does not conflict. The argument lists the cycles
  most recent first.
\<close>

fun place_backward ::
  "('n::linorder, 's, 'g) pending_transaction \<Rightarrow> ('n, 's, 'g) cycle_schedule list \<Rightarrow>
   ('n, 's, 'g) cycle_schedule list option" where
  "place_backward trx [] = None"
| "place_backward trx (c # older) =
     (case first_fit trx c of
        Some c' \<Rightarrow> Some (c' # older)
      | None \<Rightarrow> map_option ((#) c) (place_backward trx older))"

text \<open>
  Modelled from the spec (4.4 step 4): "append to the least-conflicting thread in the
  last cycle regardless of conflict". A thread conflicts the less the fewer accounts of
  the transaction's scope its cumulative scope holds; among equals the earlier thread
  is taken. A cycle without threads does not arise (every cycle is opened with one);
  there the transaction opens the thread.
\<close>

definition conflict_count ::
  "('n::linorder, 's, 'g) pending_transaction \<Rightarrow> ('n, 's, 'g) thread_schedule \<Rightarrow> nat" where
  "conflict_count trx th = length (filter (\<lambda>a. a \<in> set (thread_scope th)) (visit_scope trx))"

fun least_conflicting ::
  "('n::linorder, 's, 'g) pending_transaction \<Rightarrow> ('n, 's, 'g) cycle_schedule \<Rightarrow> nat" where
  "least_conflicting trx [] = 0"
| "least_conflicting trx [th] = 0"
| "least_conflicting trx (th # ths) =
     (let i = least_conflicting trx ths
      in if conflict_count trx th \<le> conflict_count trx (ths ! i) then 0 else Suc i)"

definition force_into ::
  "('n::linorder, 's, 'g) pending_transaction \<Rightarrow> ('n, 's, 'g) cycle_schedule \<Rightarrow>
   ('n, 's, 'g) cycle_schedule" where
  "force_into trx c =
     (if c = [] then [new_thread trx]
      else c[least_conflicting trx c := thread_append trx (c ! least_conflicting trx c)])"

text \<open>
  Modelled from the spec (4.4): one transaction placed by \<^verbatim>\<open>by_cycling_conflicts\<close>.
  Step 2 is \<open>place_backward\<close>; step 3 opens a new cycle with one new thread; once the
  maximum number of cycles is reached, step 4 forces the transaction into the last
  cycle and flags that cycle.
\<close>

definition cycling_place ::
  "global_property_object \<Rightarrow> ('n::linorder, 's, 'g) scheduled \<Rightarrow>
   ('n, 's, 'g) pending_transaction \<Rightarrow> ('n, 's, 'g) scheduled" where
  "cycling_place P st trx =
     (let cs = cycles (schedule st) in
      if cs = [] then st\<lparr>schedule := \<lparr>cycles = [[new_thread trx]]\<rparr>\<rparr>
      else
        (case place_backward trx (rev cs) of
           Some placed \<Rightarrow> st\<lparr>schedule := \<lparr>cycles = rev placed\<rparr>\<rparr>
         | None \<Rightarrow>
             if int (length cs) < maxCyclesPerBlock P
             then st\<lparr>schedule := \<lparr>cycles = cs @ [[new_thread trx]]\<rparr>\<rparr>
             else st\<lparr>schedule := \<lparr>cycles = butlast cs @ [force_into trx (last cs)]\<rparr>,
                     forced_conflicts := forced_conflicts st @ [length cs - 1]\<rparr>))"

text \<open>
  Modelled from the spec (4.4, 7): invalid properties are rejected at entry; the
  transactions are placed in input order, starting from zero cycles and no warning.
\<close>

definition by_cycling_conflicts ::
  "('n::linorder, 's, 'g) pending_transaction list \<Rightarrow> global_property_object \<Rightarrow>
   error + ('n, 's, 'g) scheduled" where
  "by_cycling_conflicts trxs P =
     (if \<not> valid_properties P then Inl ConfigurationError
      else Inr (foldl (cycling_place P)
                  \<lparr>schedule = \<lparr>cycles = []\<rparr>, forced_conflicts = []\<rparr> trxs))"

subsection \<open>The steps as rules\<close>

text \<open>
  Modelled from the spec: the same steps once more, as relations with one rule per case
  of sections 4.3 and 4.4, each rule guarded by the condition the specification gives
  for it. Nothing in the rules says that a result exists or that there is only one;
  both are proved below, and with them that the functions above compute it.
\<close>

text \<open>
  Modelled from the spec (4.3 step 2 and tie-break): no thread of the cycle accepts the
  transaction; the transaction joins the "first thread in creation order that accepts",
  every thread before it conflicting.
\<close>

definition none_accepts ::
  "('n::linorder, 's, 'g) pending_transaction \<Rightarrow> ('n, 's, 'g) cycle_schedule \<Rightarrow> bool" where
  "none_accepts trx c \<longleftrightarrow> (\<forall>th \<in> set c. conflicts (thread_scope th) (visit_scope trx))"

inductive joins_first ::
  "('n::linorder, 's, 'g) pending_transaction \<Rightarrow> ('n, 's, 'g) cycle_schedule \<Rightarrow>
   ('n, 's, 'g) cycle_schedule \<Rightarrow> bool" where
  "none_accepts trx before \<Longrightarrow> \<not> conflicts (thread_scope th) (visit_scope trx) \<Longrightarrow>
   joins_first trx (before @ th # after) (before @ thread_append trx th # after)"

text \<open>
  Modelled from the spec (4.3): the first cycle, step 2, step 3, step 4 and the forced
  placement; a run places the transactions in input order, and the scheduler rejects
  invalid properties before it runs.
\<close>

inductive threading_step ::
  "global_property_object \<Rightarrow> ('n::linorder, 's, 'g) cycle_schedule list \<Rightarrow>
   ('n, 's, 'g) pending_transaction \<Rightarrow> ('n, 's, 'g) cycle_schedule list \<Rightarrow> bool" where
  first_cycle:
    "threading_step P [] trx [[new_thread trx]]"
| existing_thread:
    "joins_first trx cur cur' \<Longrightarrow> threading_step P (older @ [cur]) trx (older @ [cur'])"
| open_thread:
    "none_accepts trx cur \<Longrightarrow> int (length cur) < maxThreadsPerCycle P \<Longrightarrow>
     threading_step P (older @ [cur]) trx (older @ [cur @ [new_thread trx]])"
| open_cycle:
    "none_accepts trx cur \<Longrightarrow> \<not> int (length cur) < maxThreadsPerCycle P \<Longrightarrow>
     int (length (older @ [cur])) < maxCyclesPerBlock P \<Longrightarrow>
     threading_step P (older @ [cur]) trx (older @ [cur] @ [[new_thread trx]])"
| forced_thread:
    "none_accepts trx cur \<Longrightarrow> \<not> int (length cur) < maxThreadsPerCycle P \<Longrightarrow>
     \<not> int (length (older @ [cur])) < maxCyclesPerBlock P \<Longrightarrow>
     threading_step P (older @ [cur]) trx (older @ [cur @ [new_thread trx]])"

inductive threading_run ::
  "global_property_object \<Rightarrow> ('n::linorder, 's, 'g) cycle_schedule list \<Rightarrow>
   ('n, 's, 'g) pending_transaction list \<Rightarrow> ('n, 's, 'g) cycle_schedule list \<Rightarrow> bool" where
  "threading_run P cs [] cs"
| "threading_step P cs trx cs' \<Longrightarrow> threading_run P cs' trxs cs'' \<Longrightarrow>
   threading_run P cs (trx # trxs) cs''"

inductive threading_schedules ::
  "('n::linorder, 's, 'g) pending_transaction list \<Rightarrow> global_property_object \<Rightarrow>
   error + ('n, 's, 'g) scheduled \<Rightarrow> bool" where
  "\<not> valid_properties P \<Longrightarrow> threading_schedules trxs P (Inl ConfigurationError)"
| "valid_properties P \<Longrightarrow> threading_run P [] trxs cs \<Longrightarrow>
   threading_schedules trxs P (Inr \<lparr>schedule = \<lparr>cycles = cs\<rparr>, forced_conflicts = []\<rparr>)"

text \<open>
  Modelled from the spec (4.4 step 2): the transaction joins the most recent cycle that
  has a thread accepting it; no cycle after it has one.
\<close>

inductive joins_backward ::
  "('n::linorder, 's, 'g) pending_transaction \<Rightarrow> ('n, 's, 'g) cycle_schedule list \<Rightarrow>
   ('n, 's, 'g) cycle_schedule list \<Rightarrow> bool" where
  "joins_first trx c c' \<Longrightarrow> \<forall>n \<in> set newer. none_accepts trx n \<Longrightarrow>
   joins_backward trx (older @ c # newer) (older @ c' # newer)"

text \<open>
  Modelled from the spec (4.4 step 4): thread \<open>i\<close> is the least-conflicting thread of
  the cycle, the earliest among equals.
\<close>

definition least_conflicting_at ::
  "('n::linorder, 's, 'g) pending_transaction \<Rightarrow> ('n, 's, 'g) cycle_schedule \<Rightarrow> nat \<Rightarrow> bool"
  where
  "least_conflicting_at trx c i \<longleftrightarrow>
     i < length c \<and>
     (\<forall>j < length c. conflict_count trx (c ! i) \<le> conflict_count trx (c ! j)) \<and>
     (\<forall>j < i. conflict_count trx (c ! i) < conflict_count trx (c ! j))"

text \<open>
  Modelled from the spec (4.4): the first cycle, step 2, step 3, and step 4 with its
  warning (on a cycle with threads and, for completeness, on a cycle without); a run
  places the transactions in input order, and the scheduler rejects invalid properties
  before it runs.
\<close>

inductive cycling_step ::
  "global_property_object \<Rightarrow> ('n::linorder, 's, 'g) scheduled \<Rightarrow>
   ('n, 's, 'g) pending_transaction \<Rightarrow> ('n, 's, 'g) scheduled \<Rightarrow> bool" where
  first_cycle:
    "cycles (schedule st) = [] \<Longrightarrow>
     cycling_step P st trx (st\<lparr>schedule := \<lparr>cycles = [[new_thread trx]]\<rparr>\<rparr>)"
| existing_thread:
    "joins_backward trx (cycles (schedule st)) cs' \<Longrightarrow>
     cycling_step P st trx (st\<lparr>schedule := \<lparr>cycles = cs'\<rparr>\<rparr>)"
| open_cycle:
    "cycles (schedule st) \<noteq> [] \<Longrightarrow> \<forall>c \<in> set (cycles (schedule st)). none_accepts trx c \<Longrightarrow>
     int (length (cycles (schedule st))) < maxCyclesPerBlock P \<Longrightarrow>
     cycling_step P st trx
       (st\<lparr>schedule := \<lparr>cycles = cycles (schedule st) @ [[new_thread trx]]\<rparr>\<rparr>)"
| forced_conflict:
    "cycles (schedule st) = older @ [cur] \<Longrightarrow>
     \<forall>c \<in> set (cycles (schedule st)). none_accepts trx c \<Longrightarrow>
     \<not> int (length (cycles (schedule st))) < maxCyclesPerBlock P \<Longrightarrow>
     least_conflicting_at trx cur i \<Longrightarrow>
     cycling_step P st trx
       (st\<lparr>schedule := \<lparr>cycles = older @ [cur[i := thread_append trx (cur ! i)]]\<rparr>,
           forced_conflicts := forced_conflicts st @ [length older]\<rparr>)"
| forced_empty:
    "cycles (schedule st) = older @ [[]] \<Longrightarrow>
     \<forall>c \<in> set (cycles (schedule st)). none_accepts trx c \<Longrightarrow>
     \<not> int (length (cycles (schedule st))) < maxCyclesPerBlock P \<Longrightarrow>
     cycling_step P st trx
       (st\<lparr>schedule := \<lparr>cycles = older @ [[new_thread trx]]\<rparr>,
           forced_conflicts := forced_conflicts st @ [length older]\<rparr>)"

inductive cycling_run ::
  "global_property_object \<Rightarrow> ('n::linorder, 's, 'g) scheduled \<Rightarrow>
   ('n, 's, 'g) pending_transaction list \<Rightarrow> ('n, 's, 'g) scheduled \<Rightarrow> bool" where
  "cycling_run P st [] st"
| "cycling_step P st trx st' \<Longrightarrow> cycling_run P st' trxs st'' \<Longrightarrow>
   cycling_run P st (trx # trxs) st''"

inductive cycling_schedules ::
  "('n::linorder, 's, 'g) pending_transaction list \<Rightarrow> global_property_object \<Rightarrow>
   error + ('n, 's, 'g) scheduled \<Rightarrow> bool" where
  "\<not> valid_properties P \<Longrightarrow> cycling_schedules trxs P (Inl ConfigurationError)"
| "valid_properties P \<Longrightarrow>
   cycling_run P \<lparr>schedule = \<lparr>cycles = []\<rparr>, forced_conflicts = []\<rparr> trxs st \<Longrightarrow>
   cycling_schedules trxs P (Inr st)"

subsection \<open>What the schedule is asked to satisfy\<close>

text \<open>
  The transactions of a schedule, slot by slot, and the defining invariant of a cycle
  (section 3): "for any two distinct threads in the same cycle, the union of scopes of
  all transactions in thread A is disjoint from the union of scopes of all transactions
  in thread B".
\<close>

definition all_transactions ::
  "('n, 's, 'g) block_schedule \<Rightarrow> ('n, 's, 'g) pending_transaction list" where
  "all_transactions s = concat (map (\<lambda>c. concat (map transactions c)) (cycles s))"



section \<open>Properties of scope extraction\<close>

lemma set_set_insert: "set (set_insert x xs) = insert x (set xs)"
  by (induction xs) auto

lemma sorted_set_insert: "sorted xs \<Longrightarrow> sorted (set_insert x xs)"
  by (induction xs) (auto simp: set_set_insert)

lemma distinct_set_insert: "sorted xs \<Longrightarrow> distinct xs \<Longrightarrow> distinct (set_insert x xs)"
  by (induction xs) (auto simp: set_set_insert)

lemma foldl_set_insert_set:
  "set (foldl (\<lambda>s x. set_insert x s) acc xs) = set acc \<union> set xs"
  by (induction xs arbitrary: acc) (auto simp: set_set_insert)

lemma foldl_set_insert_sorted:
  "sorted acc \<Longrightarrow> distinct acc \<Longrightarrow>
   sorted (foldl (\<lambda>s x. set_insert x s) acc xs) \<and> distinct (foldl (\<lambda>s x. set_insert x s) acc xs)"
  by (induction xs arbitrary: acc) (auto simp: sorted_set_insert distinct_set_insert)

lemma set_from_range_props:
  "set (set_from_range xs) = set xs" "sorted (set_from_range xs)" "distinct (set_from_range xs)"
  using foldl_set_insert_sorted [of "[]" xs]
  by (simp_all add: set_from_range_def foldl_set_insert_set)

lemma foldl_visitor_insert:
  "foldl visitor_insert f ms =
   f\<lparr>unique_names := foldl (\<lambda>s x. set_insert x s) (unique_names f) (map code ms)\<rparr>"
  by (induction ms arbitrary: f) (simp_all add: visitor_insert_def)

lemma scope_extracting_visitor_op_eq:
  "scope_extracting_visitor_op t =
   foldl (\<lambda>s x. set_insert x s) (set_from_range (scope t)) (map code (messages t))"
  by (simp add: scope_extracting_visitor_op_def visitor_run_def foldl_visitor_insert
      visitor_enter_def)

lemma visitor_op_set:
  "set (scope_extracting_visitor_op t) = set (scope t) \<union> code ` set (messages t)"
  by (simp add: scope_extracting_visitor_op_eq foldl_set_insert_set set_from_range_props)

lemma visitor_op_sorted_distinct:
  "sorted (scope_extracting_visitor_op t) \<and> distinct (scope_extracting_visitor_op t)"
  unfolding scope_extracting_visitor_op_eq
  by (rule foldl_set_insert_sorted) (simp_all add: set_from_range_props)

lemma visitor_op_empty:
  "scope t = [] \<Longrightarrow> messages t = [] \<Longrightarrow> scope_extracting_visitor_op t = []"
  by (simp add: scope_extracting_visitor_op_eq set_from_range_def)

text \<open>
  C3. For a pending transaction of either variant, scope extraction returns a strictly
  ordered, duplicate-free list whose elements are exactly the declared scope accounts
  together with the \<open>code\<close> account of every message; with an empty scope and no messages
  the result is the empty set. The model has no error branch: the body has none.
\<close>

theorem scope_extraction_union:
  "sorted (visit_scope (Signed s)) \<and> distinct (visit_scope (Signed s)) \<and>
   set (visit_scope (Signed s)) = set (scope s) \<union> code ` set (messages s) \<and>
   sorted (visit_scope (Generated g)) \<and> distinct (visit_scope (Generated g)) \<and>
   set (visit_scope (Generated g)) = set (scope g) \<union> code ` set (messages g) \<and>
   (scope s = [] \<and> messages s = [] \<longrightarrow> visit_scope (Signed s) = []) \<and>
   (scope g = [] \<and> messages g = [] \<longrightarrow> visit_scope (Generated g) = [])"
  by (simp add: visitor_op_set visitor_op_sorted_distinct visitor_op_empty)

theorem scope_extraction_union_witness:
  "scope \<lparr>scope = [], messages = []\<rparr> = ([]::nat list) \<and>
   messages \<lparr>scope = ([]::nat list), messages = []\<rparr> = [] \<and>
   (visit_scope (Signed \<lparr>scope = [], messages = []\<rparr>
      :: (nat, unit, unit) pending_transaction) = []) \<and>
   (visit_scope (Generated \<lparr>scope = [], messages = []\<rparr>
      :: (nat, unit, unit) pending_transaction) = []) \<and>
   visit_scope (Signed \<lparr>scope = [3, 1, 3], messages = [\<lparr>code = 2\<rparr>, \<lparr>code = 1\<rparr>]\<rparr>
      :: (nat, unit, unit) pending_transaction) = [1, 2, 3]"
  using scope_extraction_union
    [of "\<lparr>scope = ([]::nat list), messages = []\<rparr>" "\<lparr>scope = ([]::nat list), messages = []\<rparr>"]
  by (simp add: scope_extracting_visitor_op_eq set_from_range_def)

lemma visitor_run_trx_p: "trx_p (visitor_run t) = t"
  by (simp add: visitor_run_def foldl_visitor_insert visitor_enter_def)

text \<open>
  C8. Scope extraction is pure: the object behind the pointer is, after the call, the
  object it was before (the loop assigns to the local \<open>unique_names\<close> only), and a second
  invocation on it returns the same list, element for element.
\<close>

theorem scope_extraction_pure:
  "visit_after p = p \<and> visit_scope (visit_after p) = visit_scope p \<and>
   trx_p (visitor_run t) = t \<and> visitor_run (trx_p (visitor_run t)) = visitor_run t"
  by (cases p) (simp_all add: visitor_run_trx_p)

text \<open>
  C10. Scope extraction does not tell the variants apart: a signed and a generated
  transaction with the same declared scope list and the same \<open>code\<close> accounts in their
  messages have the same scope set, whatever else the two types carry.
\<close>

theorem scope_extraction_variant_blind:
  "scope s = scope g \<Longrightarrow> map code (messages s) = map code (messages g) \<Longrightarrow>
   visit_scope (Signed s) = visit_scope (Generated g)"
  by (simp add: scope_extracting_visitor_op_eq)

theorem scope_extraction_variant_blind_witness:
  "scope \<lparr>scope = [5, 2], messages = [\<lparr>code = 7\<rparr>], \<dots> = True\<rparr> =
     scope \<lparr>scope = [5, 2::nat], messages = [\<lparr>code = 7\<rparr>], \<dots> = ''generated''\<rparr> \<and>
   map code (messages \<lparr>scope = [5, 2], messages = [\<lparr>code = 7\<rparr>], \<dots> = True\<rparr>) =
     map code (messages \<lparr>scope = [5, 2::nat], messages = [\<lparr>code = 7\<rparr>], \<dots> = ''generated''\<rparr>) \<and>
   visit_scope (Signed \<lparr>scope = [5, 2], messages = [\<lparr>code = 7\<rparr>], \<dots> = True\<rparr>
      :: (nat, bool, string) pending_transaction) =
     visit_scope (Generated \<lparr>scope = [5, 2], messages = [\<lparr>code = 7\<rparr>], \<dots> = ''generated''\<rparr>
      :: (nat, bool, string) pending_transaction) \<and>
   visit_scope (Generated \<lparr>scope = [5, 2], messages = [\<lparr>code = 7\<rparr>], \<dots> = ''generated''\<rparr>
      :: (nat, bool, string) pending_transaction) = [2, 5, 7]"
  using scope_extraction_variant_blind
    [of "\<lparr>scope = [5, 2::nat], messages = [\<lparr>code = 7\<rparr>], \<dots> = True\<rparr>"
        "\<lparr>scope = [5, 2::nat], messages = [\<lparr>code = 7\<rparr>], \<dots> = ''generated''\<rparr>"]
  by (simp add: scope_extracting_visitor_op_eq set_from_range_def)

section \<open>Properties of the fuzzing decorators\<close>

subsection \<open>\<^verbatim>\<open>lossy\<close>\<close>

lemma copy_if_into_empty_fails:
  "elems dest = [] \<Longrightarrow> retained c draw r xs \<noteq> [] \<Longrightarrow>
   copy_if xs dest k (lossy_pred c draw) r = Inl OutOfBounds"
  by (induction xs arbitrary: r)
     (auto simp: lossy_pred_def iterator_write_def split: prod.splits if_splits)

lemma copy_if_nothing_retained:
  "retained c draw r xs = [] \<Longrightarrow>
   \<exists>r'. copy_if xs dest k (lossy_pred c draw) r = Inr (dest, k, r')"
  by (induction xs arbitrary: r)
     (auto simp: lossy_pred_def split: prod.splits if_splits)

lemma lossy_functor_result:
  assumes "DEN \<noteq> 0"
  shows "lossy_functor NUM DEN next draw rng T P =
     (if retained (real_of_int NUM / real_of_int DEN) draw rng T = [] then Inr (next [] P)
      else Inl OutOfBounds)"
proof (cases "retained (real_of_int NUM / real_of_int DEN) draw rng T = []")
  case True
  from copy_if_nothing_retained [OF True, of "reserve (length T) vector_empty" 0]
  obtain r' where
    "copy_if T (reserve (length T) vector_empty) 0
       (lossy_pred (real_of_int NUM / real_of_int DEN) draw) rng =
     Inr (reserve (length T) vector_empty, 0, r')"
    by blast
  with True assms show ?thesis
    by (simp add: lossy_functor_def Let_def reserve_def vector_empty_def)
next
  case False
  from copy_if_into_empty_fails
    [where dest = "reserve (length T) vector_empty" and k = 0, OF _ False] False assms
  show ?thesis
    by (simp add: lossy_functor_def Let_def reserve_def vector_empty_def)
qed

lemma lossy_functor_div0:
  "NUM \<ge> 0 \<Longrightarrow> lossy_functor NUM 0 next draw rng T P = Inr (next [] P)"
proof -
  assume n: "NUM \<ge> 0"
  have "\<exists>r'. copy_if T dest k (lossy_pred_div0 NUM draw) r = Inr (dest, k, r')" for dest k r
    using n by (induction T arbitrary: r) (auto simp: lossy_pred_div0_def split: prod.splits)
  then obtain r' where
    "copy_if T (reserve (length T) vector_empty) 0 (lossy_pred_div0 NUM draw) rng =
     Inr (reserve (length T) vector_empty, 0, r')"
    by blast
  then show ?thesis
    by (simp add: lossy_functor_def Let_def reserve_def vector_empty_def)
qed

text \<open>
  C4. \<^verbatim>\<open>lossy\<close> with cutoff 1/4 on one transaction whose draw is 1/2: the transaction is
  retained, so the claim has \<^verbatim>\<open>next\<close> called on the list holding it. The code never calls
  \<^verbatim>\<open>next\<close> on it: \<^verbatim>\<open>copy_if\<close> writes the retained transaction through \<^verbatim>\<open>copy.begin()\<close>
  into a vector of size 0. In general \<^verbatim>\<open>next\<close> is reached only when nothing is retained,
  and then with the empty list.
\<close>

theorem lossy_retained_not_delegated:
  "retained (real_of_int 1 / real_of_int 4) replay [1 / 2] [t] = [t] \<and>
   lossy_functor 1 4 next replay [1 / 2] [t] P = Inl OutOfBounds \<and>
   lossy_functor 1 4 next replay [1 / 2] [t] P \<noteq>
     Inr (next (retained (real_of_int 1 / real_of_int 4) replay [1 / 2] [t]) P)"
  by (simp add: lossy_functor_result)

text \<open>
  C5. The destination of the copy step has size 0 and room for \<open>length T\<close> elements;
  the first element the predicate accepts is written at offset 0, outside the vector.
  With drop ratio 0/1 and one transaction the copy step ends in \<open>OutOfBounds\<close>.
\<close>

theorem lossy_copy_out_of_bounds:
  "elems (reserve (length [t]) vector_empty) = [] \<and>
   capacity (reserve (length [t]) (vector_empty :: 'a vector)) = 1 \<and>
   iterator_write (reserve (length [t]) vector_empty) 0 t = Inl OutOfBounds \<and>
   copy_if [t] (reserve (length [t]) vector_empty) 0
     (lossy_pred (real_of_int 0 / real_of_int 1) replay) [1 / 2] = Inl OutOfBounds \<and>
   lossy_functor 0 1 next replay [1 / 2] [t] P = Inl OutOfBounds"
  by (simp add: reserve_def vector_empty_def iterator_write_def lossy_pred_def
      lossy_functor_def)

subsection \<open>\<^verbatim>\<open>shuffled\<close>\<close>

lemma mset_swap_at:
  "i < length xs \<Longrightarrow> j < length xs \<Longrightarrow> mset (swap_at i j xs) = mset xs"
  by (simp add: swap_at_def mset_swap)

lemma length_swap_at: "length (swap_at i j xs) = length xs"
  by (simp add: swap_at_def)

lemma mset_shuffle_from:
  "i < length xs \<Longrightarrow> mset (fst (shuffle_from pick i xs r)) = mset xs"
proof (induction i arbitrary: xs r)
  case 0
  then show ?case by simp
next
  case (Suc i)
  obtain j r' where p: "pick (Suc i) r = (j, r')"
    by (cases "pick (Suc i) r")
  have "j mod Suc (Suc i) < Suc (Suc i)"
    by simp
  with Suc.prems have j: "j mod Suc (Suc i) < length xs"
    by linarith
  have "mset (fst (shuffle_from pick i (swap_at (Suc i) (j mod Suc (Suc i)) xs) r')) =
        mset (swap_at (Suc i) (j mod Suc (Suc i)) xs)"
    using Suc.prems by (intro Suc.IH) (simp add: length_swap_at)
  also have "\<dots> = mset xs"
    using Suc.prems j by (rule mset_swap_at)
  finally show ?case
    by (simp add: p)
qed

lemma mset_std_shuffle: "mset (fst (std_shuffle pick xs r)) = mset xs"
proof (cases xs)
  case Nil
  then show ?thesis by (simp add: std_shuffle_def)
next
  case (Cons y ys)
  then have "length xs - 1 < length xs" by simp
  then show ?thesis
    unfolding std_shuffle_def by (rule mset_shuffle_from)
qed

lemma shuffle_moves_elements:
  "shuffled_functor (\<lambda>xs P. xs) (\<lambda>i r. (0, r)) () [1, 2, 3 :: nat] () = [2, 3, 1]"
  by code_simp

text \<open>
  C6. \<^verbatim>\<open>shuffled(next)\<close> works on a copy: at the call of \<^verbatim>\<open>next\<close> the caller's list is
  what it was, the copy is a permutation of it, and the schedule returned is the one
  \<^verbatim>\<open>next\<close> returns on the copy.
\<close>

theorem shuffled_delegates_permutation:
  "caller_transactions (shuffled_shuffle pick rng (shuffled_enter T)) = T \<and>
   mset (copy (shuffled_shuffle pick rng (shuffled_enter T))) = mset T \<and>
   shuffled_functor next pick rng T P =
     next (copy (shuffled_shuffle pick rng (shuffled_enter T))) P"
  by (simp add: shuffled_functor_def shuffled_shuffle_def shuffled_enter_def mset_std_shuffle)

section \<open>Properties of the reflection\<close>

lemma those_leaf_of: "those (map (leaf_of \<circ> Leaf) ts) = Some ts"
  by (induction ts) simp_all

lemma thread_to_variant_eq:
  "reflected thread_schedule_members th =
   Object [(''transactions'', Array (map Leaf (transactions th)))]"
  by (simp add: reflected_def thread_schedule_members_def)

lemma thread_from_to_variant:
  "thread_from_variant (reflected thread_schedule_members th) = Some th"
  by (simp add: thread_to_variant_eq those_leaf_of)

lemma those_thread_from_variant:
  "those (map (thread_from_variant \<circ> reflected thread_schedule_members) c) = Some c"
  by (induction c) (simp_all add: thread_from_to_variant)

lemma cycle_from_to_variant: "cycle_from_variant (cycle_to_variant c) = Some c"
  by (simp add: cycle_to_variant_def those_thread_from_variant)

lemma those_cycle_from_variant:
  "those (map (cycle_from_variant \<circ> cycle_to_variant) cs) = Some cs"
  by (induction cs) (simp_all add: cycle_from_to_variant)

lemma block_schedule_to_variant_eq:
  "block_schedule_to_variant s = Object [(''cycles'', Array (map cycle_to_variant (cycles s)))]"
  by (simp add: block_schedule_to_variant_def reflected_def block_schedule_members_def)

text \<open>
  C9. The serialised form of a block schedule is an object whose one member is named
  \<open>cycles\<close>; each thread entry in it is an object whose one member is named
  \<open>transactions\<close>; cycles and threads are nested arrays, and the schedule can be read
  back from the serialised form, so no grouping is lost.
\<close>

theorem reflection_keeps_nesting:
  "member_names (block_schedule_to_variant s) = [''cycles''] \<and>
   member_names (reflected thread_schedule_members th) = [''transactions''] \<and>
   block_schedule_to_variant s =
     Object [(''cycles'',
       Array (map (\<lambda>c. Array (map (\<lambda>th. Object [(''transactions'',
                Array (map Leaf (transactions th)))]) c)) (cycles s)))] \<and>
   block_schedule_from_variant (block_schedule_to_variant s) = Some s"
  by (simp add: block_schedule_to_variant_eq thread_to_variant_eq those_cycle_from_variant
      cycle_to_variant_def)

section \<open>Properties of the schedulers\<close>

subsection \<open>Coverage\<close>

lemma mset_first_fit:
  "first_fit trx c = Some c' \<Longrightarrow>
   mset (concat (map transactions c')) = add_mset trx (mset (concat (map transactions c)))"
  by (induction c arbitrary: c') (auto simp: thread_append_def split: if_splits)


lemma mset_place_backward:
  "place_backward trx cs = Some cs' \<Longrightarrow>
   mset (concat (map (\<lambda>c. concat (map transactions c)) cs')) =
   add_mset trx (mset (concat (map (\<lambda>c. concat (map transactions c)) cs)))"
  by (induction cs arbitrary: cs') (auto split: option.splits dest: mset_first_fit)

lemma least_conflicting_less: "c \<noteq> [] \<Longrightarrow> least_conflicting trx c < length c"
  by (induction trx c rule: least_conflicting.induct) (auto simp: Let_def)

lemma mset_concat_update:
  "i < length c \<Longrightarrow>
   mset (concat (map transactions (c[i := thread_append trx (c ! i)]))) =
   add_mset trx (mset (concat (map transactions c)))"
proof (induction c arbitrary: i)
  case Nil
  then show ?case by simp
next
  case (Cons th ths)
  then show ?case by (cases i) (simp_all add: thread_append_def)
qed

lemma mset_force_into:
  "mset (concat (map transactions (force_into trx c))) =
   add_mset trx (mset (concat (map transactions c)))"
  by (simp add: force_into_def new_thread_def mset_concat_update least_conflicting_less)

lemma mset_threading_place:
  "mset (concat (map (\<lambda>c. concat (map transactions c)) (threading_place P cs trx))) =
   add_mset trx (mset (concat (map (\<lambda>c. concat (map transactions c)) cs)))"
proof (cases cs rule: rev_cases)
  case Nil
  then show ?thesis by (simp add: threading_place_def new_thread_def)
next
  case (snoc older cur)
  then show ?thesis
    by (auto simp: threading_place_def new_thread_def split: option.splits dest: mset_first_fit)
qed


lemma mset_cycling_place:
  "mset (all_transactions (schedule (cycling_place P st trx))) =
   add_mset trx (mset (all_transactions (schedule st)))"
proof (cases "cycles (schedule st)" rule: rev_cases)
  case Nil
  then show ?thesis
    by (simp add: cycling_place_def all_transactions_def new_thread_def)
next
  case (snoc older cur)
  show ?thesis
  proof (cases "place_backward trx (rev (cycles (schedule st)))")
    case None
    have "cycles (schedule st) \<noteq> []"
      using snoc by simp
    with None have "cycling_place P st trx =
      (if int (length (cycles (schedule st))) < maxCyclesPerBlock P
       then st\<lparr>schedule := \<lparr>cycles = cycles (schedule st) @ [[new_thread trx]]\<rparr>\<rparr>
       else st\<lparr>schedule := \<lparr>cycles = butlast (cycles (schedule st)) @
                 [force_into trx (last (cycles (schedule st)))]\<rparr>,
               forced_conflicts := forced_conflicts st @ [length (cycles (schedule st)) - 1]\<rparr>)"
      by (simp add: cycling_place_def Let_def)
    with snoc show ?thesis
      by (simp add: all_transactions_def new_thread_def mset_force_into)
  next
    case (Some placed)
    from mset_place_backward [OF Some]
    have "mset (concat (map (\<lambda>c. concat (map transactions c)) (rev placed))) =
          add_mset trx (mset (concat (map (\<lambda>c. concat (map transactions c))
            (cycles (schedule st)))))"
      by (simp add: mset_concat rev_map [symmetric] del: mset_rev)
    moreover have "cycling_place P st trx = st\<lparr>schedule := \<lparr>cycles = rev placed\<rparr>\<rparr>"
      using snoc Some by (simp add: cycling_place_def Let_def)
    ultimately show ?thesis
      by (simp add: all_transactions_def)
  qed
qed

lemma mset_foldl_threading_place:
  "mset (concat (map (\<lambda>c. concat (map transactions c)) (foldl (threading_place P) cs T))) =
   mset (concat (map (\<lambda>c. concat (map transactions c)) cs)) + mset T"
  by (induction T arbitrary: cs) (simp_all add: mset_threading_place)

lemma mset_foldl_cycling_place:
  "mset (all_transactions (schedule (foldl (cycling_place P) st T))) =
   mset (all_transactions (schedule st)) + mset T"
  by (induction T arbitrary: st) (simp_all add: mset_cycling_place)

text \<open>
  C2. With valid properties each scheduler returns a schedule, and the transactions in
  its slots are, as a multiset, the transactions it was given: none is dropped, none
  appears twice.
\<close>

theorem schedulers_cover:
  "valid_properties P \<Longrightarrow>
   (\<exists>r. by_threading_conflicts T P = Inr r \<and> mset (all_transactions (schedule r)) = mset T) \<and>
   (\<exists>r. by_cycling_conflicts T P = Inr r \<and> mset (all_transactions (schedule r)) = mset T)"
  by (simp add: by_threading_conflicts_def by_cycling_conflicts_def all_transactions_def
      mset_foldl_threading_place mset_foldl_cycling_place [unfolded all_transactions_def])

theorem schedulers_cover_witness:
  "valid_properties \<lparr>maxCyclesPerBlock = 1, maxThreadsPerCycle = 2\<rparr> \<and>
   (\<exists>r. by_threading_conflicts
          [Signed \<lparr>scope = [1::nat], messages = []\<rparr>, Generated \<lparr>scope = [1], messages = []\<rparr>,
           Signed \<lparr>scope = [2], messages = [\<lparr>code = 1\<rparr>]\<rparr>
             :: (nat, unit, unit) pending_transaction]
          \<lparr>maxCyclesPerBlock = 1, maxThreadsPerCycle = 2\<rparr> = Inr r \<and>
        mset (all_transactions (schedule r)) =
          {#Signed \<lparr>scope = [1], messages = []\<rparr>, Generated \<lparr>scope = [1], messages = []\<rparr>,
            Signed \<lparr>scope = [2], messages = [\<lparr>code = 1\<rparr>]\<rparr>#}) \<and>
   (\<exists>r. by_cycling_conflicts
          [Signed \<lparr>scope = [1::nat], messages = []\<rparr>, Generated \<lparr>scope = [1], messages = []\<rparr>,
           Signed \<lparr>scope = [2], messages = [\<lparr>code = 1\<rparr>]\<rparr>
             :: (nat, unit, unit) pending_transaction]
          \<lparr>maxCyclesPerBlock = 1, maxThreadsPerCycle = 2\<rparr> = Inr r \<and>
        mset (all_transactions (schedule r)) =
          {#Signed \<lparr>scope = [1], messages = []\<rparr>, Generated \<lparr>scope = [1], messages = []\<rparr>,
            Signed \<lparr>scope = [2], messages = [\<lparr>code = 1\<rparr>]\<rparr>#})"
proof -
  have v: "valid_properties \<lparr>maxCyclesPerBlock = 1, maxThreadsPerCycle = 2\<rparr>"
    by (simp add: valid_properties_def)
  from schedulers_cover [OF v,
      of "[Signed \<lparr>scope = [1::nat], messages = []\<rparr>, Generated \<lparr>scope = [1], messages = []\<rparr>,
           Signed \<lparr>scope = [2], messages = [\<lparr>code = 1\<rparr>]\<rparr>
             :: (nat, unit, unit) pending_transaction]"]
  show ?thesis
    using v by (simp add: add_mset_commute)
qed

subsection \<open>Determinism\<close>

lemma first_fit_None: "first_fit trx c = None \<longleftrightarrow> none_accepts trx c"
  by (induction c) (auto simp: none_accepts_def)

lemma joins_first_Cons:
  "joins_first trx (th # ths) c' \<longleftrightarrow>
   (if \<not> conflicts (thread_scope th) (visit_scope trx) then c' = thread_append trx th # ths
    else \<exists>ths'. c' = th # ths' \<and> joins_first trx ths ths')"
proof (cases "conflicts (thread_scope th) (visit_scope trx)")
  case True
  show ?thesis
  proof
    assume "joins_first trx (th # ths) c'"
    then obtain before t after where
      e: "th # ths = before @ t # after" "c' = before @ thread_append trx t # after"
      and n: "none_accepts trx before" "\<not> conflicts (thread_scope t) (visit_scope trx)"
      by (auto elim: joins_first.cases)
    from e n True obtain b' where b: "before = th # b'"
      by (cases before) auto
    with e n have "joins_first trx ths (b' @ thread_append trx t # after)"
      by (auto simp: none_accepts_def intro: joins_first.intros)
    with b e True show "if \<not> conflicts (thread_scope th) (visit_scope trx)
      then c' = thread_append trx th # ths
      else \<exists>ths'. c' = th # ths' \<and> joins_first trx ths ths'"
      by simp
  next
    assume "if \<not> conflicts (thread_scope th) (visit_scope trx)
      then c' = thread_append trx th # ths
      else \<exists>ths'. c' = th # ths' \<and> joins_first trx ths ths'"
    with True obtain ths' where c: "c' = th # ths'" and j: "joins_first trx ths ths'"
      by auto
    from j obtain before t after where
      e: "ths = before @ t # after" "ths' = before @ thread_append trx t # after"
      and n: "none_accepts trx before" "\<not> conflicts (thread_scope t) (visit_scope trx)"
      by (auto elim: joins_first.cases)
    from n True have "none_accepts trx (th # before)"
      by (simp add: none_accepts_def)
    from joins_first.intros [OF this n(2), of after] c e
    show "joins_first trx (th # ths) c'"
      by simp
  qed
next
  case False
  show ?thesis
  proof
    assume "joins_first trx (th # ths) c'"
    then obtain before t after where
      e: "th # ths = before @ t # after" "c' = before @ thread_append trx t # after"
      and n: "none_accepts trx before" "\<not> conflicts (thread_scope t) (visit_scope trx)"
      by (auto elim: joins_first.cases)
    from e n False have "before = []"
      by (cases before) (auto simp: none_accepts_def)
    with e False show "if \<not> conflicts (thread_scope th) (visit_scope trx)
      then c' = thread_append trx th # ths
      else \<exists>ths'. c' = th # ths' \<and> joins_first trx ths ths'"
      by simp
  next
    assume "if \<not> conflicts (thread_scope th) (visit_scope trx)
      then c' = thread_append trx th # ths
      else \<exists>ths'. c' = th # ths' \<and> joins_first trx ths ths'"
    with False have c: "c' = thread_append trx th # ths"
      by simp
    have "none_accepts trx []"
      by (simp add: none_accepts_def)
    from joins_first.intros [OF this False, of ths] c show "joins_first trx (th # ths) c'"
      by simp
  qed
qed

lemma joins_first_Nil: "\<not> joins_first trx [] c'"
  by (auto elim: joins_first.cases)

lemma joins_first_iff: "joins_first trx c c' \<longleftrightarrow> first_fit trx c = Some c'"
  by (induction c arbitrary: c') (auto simp: joins_first_Nil joins_first_Cons)


lemma threading_step_place: "threading_step P cs trx (threading_place P cs trx)"
proof (cases cs rule: rev_cases)
  case Nil
  then show ?thesis
    by (simp add: threading_place_def threading_step.first_cycle)
next
  case (snoc older cur)
  show ?thesis
  proof (cases "first_fit trx cur")
    case (Some cur')
    then have "joins_first trx cur cur'"
      by (simp add: joins_first_iff)
    from threading_step.existing_thread [OF this, of P older] snoc Some show ?thesis
      by (simp add: threading_place_def)
  next
    case None
    then have n: "none_accepts trx cur"
      by (simp add: first_fit_None)
    consider (a) "int (length cur) < maxThreadsPerCycle P"
      | (b) "\<not> int (length cur) < maxThreadsPerCycle P"
            "int (length (older @ [cur])) < maxCyclesPerBlock P"
      | (c) "\<not> int (length cur) < maxThreadsPerCycle P"
            "\<not> int (length (older @ [cur])) < maxCyclesPerBlock P"
      by blast
    then show ?thesis
    proof cases
      case a
      from threading_step.open_thread [OF n a, of older] snoc None a show ?thesis
        by (simp add: threading_place_def)
    next
      case b
      from threading_step.open_cycle [OF n b] snoc None b show ?thesis
        by (simp add: threading_place_def)
    next
      case c
      from threading_step.forced_thread [OF n c] snoc None c show ?thesis
        by (simp add: threading_place_def)
    qed
  qed
qed

lemma threading_step_unique:
  "threading_step P cs trx cs' \<Longrightarrow> cs' = threading_place P cs trx"
proof (induction rule: threading_step.induct)
  case (first_cycle P trx)
  show ?case by (simp add: threading_place_def)
next
  case (existing_thread trx cur cur' P older)
  then show ?case by (simp add: threading_place_def joins_first_iff)
next
  case (open_thread trx cur P older)
  then show ?case by (simp add: threading_place_def first_fit_None [symmetric])
next
  case (open_cycle trx cur P older)
  then show ?case by (simp add: threading_place_def first_fit_None [symmetric])
next
  case (forced_thread trx cur P older)
  then show ?case by (simp add: threading_place_def first_fit_None [symmetric])
qed

lemma threading_run_foldl: "threading_run P cs T (foldl (threading_place P) cs T)"
  by (induction T arbitrary: cs) (auto intro: threading_run.intros threading_step_place)

lemma threading_run_unique:
  "threading_run P cs T cs' \<Longrightarrow> cs' = foldl (threading_place P) cs T"
  by (induction rule: threading_run.induct) (auto dest: threading_step_unique)

lemma threading_schedules_function:
  "threading_schedules T P (by_threading_conflicts T P)"
  by (auto simp: by_threading_conflicts_def intro: threading_schedules.intros threading_run_foldl)

lemma threading_schedules_unique:
  "threading_schedules T P r \<Longrightarrow> r = by_threading_conflicts T P"
  by (induction rule: threading_schedules.induct)
     (auto simp: by_threading_conflicts_def dest: threading_run_unique)


lemma place_backward_None:
  "place_backward trx xs = None \<longleftrightarrow> (\<forall>c \<in> set xs. none_accepts trx c)"
  by (induction xs) (auto simp: first_fit_None [symmetric] split: option.splits)

lemma place_backward_joins:
  "place_backward trx xs = Some xs' \<Longrightarrow>
   \<exists>newer c c' older. xs = newer @ c # older \<and> xs' = newer @ c' # older \<and>
     joins_first trx c c' \<and> (\<forall>n \<in> set newer. none_accepts trx n)"
proof (induction xs arbitrary: xs')
  case Nil
  then show ?case by simp
next
  case (Cons c0 rest)
  show ?case
  proof (cases "first_fit trx c0")
    case (Some c0')
    with Cons.prems have "xs' = c0' # rest"
      by simp
    moreover from Some have "joins_first trx c0 c0'"
      by (simp add: joins_first_iff)
    ultimately have "c0 # rest = [] @ c0 # rest \<and> xs' = [] @ c0' # rest \<and>
        joins_first trx c0 c0' \<and> (\<forall>n \<in> set []. none_accepts trx n)"
      by simp
    then show ?thesis by blast
  next
    case None
    with Cons.prems obtain rest' where
      r: "place_backward trx rest = Some rest'" and x: "xs' = c0 # rest'"
      by auto
    from Cons.IH [OF r] obtain newer c c' older where
      d: "rest = newer @ c # older" "rest' = newer @ c' # older" "joins_first trx c c'"
         "\<forall>n \<in> set newer. none_accepts trx n"
      by blast
    from None have "none_accepts trx c0"
      by (simp add: first_fit_None)
    with d x have "c0 # rest = (c0 # newer) @ c # older \<and> xs' = (c0 # newer) @ c' # older \<and>
        joins_first trx c c' \<and> (\<forall>n \<in> set (c0 # newer). none_accepts trx n)"
      by simp
    then show ?thesis by blast
  qed
qed

lemma joins_place_backward:
  "joins_first trx c c' \<Longrightarrow> \<forall>n \<in> set newer. none_accepts trx n \<Longrightarrow>
   place_backward trx (newer @ c # older) = Some (newer @ c' # older)"
  by (induction newer) (simp_all add: joins_first_iff first_fit_None [symmetric])

lemma joins_backward_iff:
  "joins_backward trx cs cs' \<longleftrightarrow> place_backward trx (rev cs) = Some (rev cs')"
proof
  assume "joins_backward trx cs cs'"
  then obtain older c c' newer where
    "cs = older @ c # newer" "cs' = older @ c' # newer" "joins_first trx c c'"
    "\<forall>n \<in> set newer. none_accepts trx n"
    by (auto elim: joins_backward.cases)
  then show "place_backward trx (rev cs) = Some (rev cs')"
    using joins_place_backward [of trx c c' "rev newer" "rev older"] by simp
next
  assume "place_backward trx (rev cs) = Some (rev cs')"
  from place_backward_joins [OF this] obtain newer c c' older where
    d: "rev cs = newer @ c # older" "rev cs' = newer @ c' # older" "joins_first trx c c'"
       "\<forall>n \<in> set newer. none_accepts trx n"
    by blast
  from d(1) have "cs = rev older @ c # rev newer"
    by (simp add: rev_swap)
  moreover from d(2) have "cs' = rev older @ c' # rev newer"
    by (simp add: rev_swap)
  moreover from d(4) have "\<forall>n \<in> set (rev newer). none_accepts trx n"
    by simp
  ultimately show "joins_backward trx cs cs'"
    using d(3) by (auto intro: joins_backward.intros)
qed

lemma least_conflicting_at_unique:
  "least_conflicting_at trx c i \<Longrightarrow> least_conflicting_at trx c j \<Longrightarrow> i = j"
proof (rule ccontr)
  assume i: "least_conflicting_at trx c i" and j: "least_conflicting_at trx c j" and "i \<noteq> j"
  then consider "i < j" | "j < i"
    by linarith
  then show False
  proof cases
    case 1
    with j have "conflict_count trx (c ! j) < conflict_count trx (c ! i)"
      by (simp add: least_conflicting_at_def)
    moreover from i j have "conflict_count trx (c ! i) \<le> conflict_count trx (c ! j)"
      by (simp add: least_conflicting_at_def)
    ultimately show False by simp
  next
    case 2
    with i have "conflict_count trx (c ! i) < conflict_count trx (c ! j)"
      by (simp add: least_conflicting_at_def)
    moreover from i j have "conflict_count trx (c ! j) \<le> conflict_count trx (c ! i)"
      by (simp add: least_conflicting_at_def)
    ultimately show False by simp
  qed
qed

lemma least_conflicting_at_function:
  "c \<noteq> [] \<Longrightarrow> least_conflicting_at trx c (least_conflicting trx c)"
proof (induction trx c rule: least_conflicting.induct)
  case (1 trx)
  then show ?case by simp
next
  case (2 trx th)
  then show ?case by (simp add: least_conflicting_at_def)
next
  case (3 trx th t2 ths)
  let ?i = "least_conflicting trx (t2 # ths)"
  from 3 have ih: "least_conflicting_at trx (t2 # ths) ?i"
    by simp
  show ?case
  proof (cases "conflict_count trx th \<le> conflict_count trx ((t2 # ths) ! ?i)")
    case True
    then have l: "least_conflicting trx (th # t2 # ths) = 0"
      by simp
    have "\<forall>j < length (th # t2 # ths).
        conflict_count trx th \<le> conflict_count trx ((th # t2 # ths) ! j)"
    proof (intro allI impI)
      fix j assume "j < length (th # t2 # ths)"
      then show "conflict_count trx th \<le> conflict_count trx ((th # t2 # ths) ! j)"
      proof (cases j)
        case 0
        then show ?thesis by simp
      next
        case (Suc k)
        with \<open>j < length (th # t2 # ths)\<close> have "k < length (t2 # ths)"
          by simp
        with ih have "conflict_count trx ((t2 # ths) ! ?i) \<le> conflict_count trx ((t2 # ths) ! k)"
          by (simp add: least_conflicting_at_def)
        with True Suc show ?thesis by simp
      qed
    qed
    then show ?thesis
      unfolding l by (simp add: least_conflicting_at_def)
  next
    case False
    then have l: "least_conflicting trx (th # t2 # ths) = Suc ?i"
      by simp
    from ih have i: "?i < length (t2 # ths)"
      by (simp add: least_conflicting_at_def)
    have a: "\<forall>j < length (th # t2 # ths).
        conflict_count trx ((t2 # ths) ! ?i) \<le> conflict_count trx ((th # t2 # ths) ! j)"
    proof (intro allI impI)
      fix j assume "j < length (th # t2 # ths)"
      then show "conflict_count trx ((t2 # ths) ! ?i) \<le> conflict_count trx ((th # t2 # ths) ! j)"
      proof (cases j)
        case 0
        with False show ?thesis by simp
      next
        case (Suc k)
        with \<open>j < length (th # t2 # ths)\<close> have "k < length (t2 # ths)"
          by simp
        with ih have "conflict_count trx ((t2 # ths) ! ?i) \<le> conflict_count trx ((t2 # ths) ! k)"
          by (simp add: least_conflicting_at_def)
        with Suc show ?thesis by simp
      qed
    qed
    have b: "\<forall>j < Suc ?i.
        conflict_count trx ((t2 # ths) ! ?i) < conflict_count trx ((th # t2 # ths) ! j)"
    proof (intro allI impI)
      fix j assume "j < Suc ?i"
      then show "conflict_count trx ((t2 # ths) ! ?i) < conflict_count trx ((th # t2 # ths) ! j)"
      proof (cases j)
        case 0
        with False show ?thesis by simp
      next
        case (Suc k)
        with \<open>j < Suc ?i\<close> have "k < ?i"
          by simp
        with ih have "conflict_count trx ((t2 # ths) ! ?i) < conflict_count trx ((t2 # ths) ! k)"
          by (simp add: least_conflicting_at_def)
        with Suc show ?thesis by simp
      qed
    qed
    from i a b show ?thesis
      unfolding l least_conflicting_at_def by simp
  qed
qed


lemma cycling_place_first: "cycles (schedule st) = [] \<Longrightarrow>
  cycling_place P st trx = st\<lparr>schedule := \<lparr>cycles = [[new_thread trx]]\<rparr>\<rparr>"
  by (simp add: cycling_place_def)

lemma cycling_place_joined:
  "cycles (schedule st) \<noteq> [] \<Longrightarrow> place_backward trx (rev (cycles (schedule st))) = Some placed \<Longrightarrow>
   cycling_place P st trx = st\<lparr>schedule := \<lparr>cycles = rev placed\<rparr>\<rparr>"
  by (simp add: cycling_place_def Let_def)

lemma cycling_place_open:
  "cycles (schedule st) \<noteq> [] \<Longrightarrow> place_backward trx (rev (cycles (schedule st))) = None \<Longrightarrow>
   int (length (cycles (schedule st))) < maxCyclesPerBlock P \<Longrightarrow>
   cycling_place P st trx =
     st\<lparr>schedule := \<lparr>cycles = cycles (schedule st) @ [[new_thread trx]]\<rparr>\<rparr>"
  by (simp add: cycling_place_def Let_def)

lemma cycling_place_forced:
  "cycles (schedule st) = older @ [cur] \<Longrightarrow>
   place_backward trx (rev (cycles (schedule st))) = None \<Longrightarrow>
   \<not> int (length (cycles (schedule st))) < maxCyclesPerBlock P \<Longrightarrow>
   cycling_place P st trx =
     st\<lparr>schedule := \<lparr>cycles = older @ [force_into trx cur]\<rparr>,
        forced_conflicts := forced_conflicts st @ [length older]\<rparr>"
proof -
  assume c: "cycles (schedule st) = older @ [cur]"
    and n: "place_backward trx (rev (cycles (schedule st))) = None"
    and m: "\<not> int (length (cycles (schedule st))) < maxCyclesPerBlock P"
  have "cycles (schedule st) \<noteq> []"
    using c by simp
  with n m have "cycling_place P st trx =
      st\<lparr>schedule := \<lparr>cycles = butlast (cycles (schedule st)) @
              [force_into trx (last (cycles (schedule st)))]\<rparr>,
         forced_conflicts := forced_conflicts st @ [length (cycles (schedule st)) - 1]\<rparr>"
    by (simp add: cycling_place_def Let_def)
  with c show ?thesis
    by simp
qed

lemma cycling_step_place: "cycling_step P st trx (cycling_place P st trx)"
proof (cases "cycles (schedule st)" rule: rev_cases)
  case Nil
  then show ?thesis
    by (simp add: cycling_place_first cycling_step.first_cycle)
next
  case (snoc older cur)
  then have ne: "cycles (schedule st) \<noteq> []"
    by simp
  show ?thesis
  proof (cases "place_backward trx (rev (cycles (schedule st)))")
    case (Some placed)
    then have "joins_backward trx (cycles (schedule st)) (rev placed)"
      by (simp add: joins_backward_iff)
    from cycling_step.existing_thread [OF this, of P] show ?thesis
      by (simp add: cycling_place_joined [OF ne Some])
  next
    case None
    then have all: "\<forall>c \<in> set (cycles (schedule st)). none_accepts trx c"
      by (simp add: place_backward_None)
    show ?thesis
    proof (cases "int (length (cycles (schedule st))) < maxCyclesPerBlock P")
      case True
      from cycling_step.open_cycle [OF ne all True] show ?thesis
        by (simp add: cycling_place_open [OF ne None True])
    next
      case False
      show ?thesis
      proof (cases "cur = []")
        case True
        with snoc have "cycles (schedule st) = older @ [[]]"
          by simp
        from cycling_step.forced_empty [OF this all False] True show ?thesis
          by (simp add: cycling_place_forced [OF snoc None False] force_into_def)
      next
        case ne_cur: False
        then have "least_conflicting_at trx cur (least_conflicting trx cur)"
          by (rule least_conflicting_at_function)
        from cycling_step.forced_conflict [OF snoc all False this] ne_cur show ?thesis
          by (simp add: cycling_place_forced [OF snoc None False] force_into_def)
      qed
    qed
  qed
qed

lemma cycling_step_unique:
  "cycling_step P st trx st' \<Longrightarrow> st' = cycling_place P st trx"
proof (induction rule: cycling_step.induct)
  case (first_cycle st P trx)
  then show ?case by (simp add: cycling_place_first)
next
  case (existing_thread trx st cs' P)
  then have p: "place_backward trx (rev (cycles (schedule st))) = Some (rev cs')"
    by (simp add: joins_backward_iff)
  from existing_thread have "cycles (schedule st) \<noteq> []"
    by (auto elim: joins_backward.cases)
  from cycling_place_joined [OF this p] show ?case
    by simp
next
  case (open_cycle st trx P)
  from open_cycle(2) have "place_backward trx (rev (cycles (schedule st))) = None"
    by (simp add: place_backward_None)
  from cycling_place_open [OF open_cycle(1) this open_cycle(3)] show ?case
    by simp
next
  case (forced_conflict st older cur trx P i)
  from forced_conflict(2) have n: "place_backward trx (rev (cycles (schedule st))) = None"
    by (simp add: place_backward_None)
  from forced_conflict(4) have ne: "cur \<noteq> []"
    by (auto simp: least_conflicting_at_def)
  from least_conflicting_at_unique [OF forced_conflict(4) least_conflicting_at_function [OF ne]]
  have "i = least_conflicting trx cur" .
  with ne show ?case
    by (simp add: cycling_place_forced [OF forced_conflict(1) n forced_conflict(3)] force_into_def)
next
  case (forced_empty st older trx P)
  from forced_empty(2) have n: "place_backward trx (rev (cycles (schedule st))) = None"
    by (simp add: place_backward_None)
  show ?case
    by (simp add: cycling_place_forced [OF forced_empty(1) n forced_empty(3)] force_into_def)
qed

lemma cycling_run_foldl: "cycling_run P st T (foldl (cycling_place P) st T)"
  by (induction T arbitrary: st) (auto intro: cycling_run.intros cycling_step_place)

lemma cycling_run_unique:
  "cycling_run P st T st' \<Longrightarrow> st' = foldl (cycling_place P) st T"
  by (induction rule: cycling_run.induct) (auto dest: cycling_step_unique)

lemma cycling_schedules_function:
  "cycling_schedules T P (by_cycling_conflicts T P)"
  by (auto simp: by_cycling_conflicts_def intro: cycling_schedules.intros cycling_run_foldl)

lemma cycling_schedules_unique:
  "cycling_schedules T P r \<Longrightarrow> r = by_cycling_conflicts T P"
  by (induction rule: cycling_schedules.induct)
     (auto simp: by_cycling_conflicts_def dest: cycling_run_unique)

text \<open>
  C7. Each scheduler is a total, deterministic function of the ordered transaction list
  and the properties: whatever the rules of the specification allow as the outcome of
  two invocations on the same list and properties is one and the same value, an
  outcome always exists, and it is the value the scheduler function computes.
\<close>

theorem schedulers_deterministic:
  "(threading_schedules T P r1 \<and> threading_schedules T P r2 \<longrightarrow> r1 = r2) \<and>
   (cycling_schedules T P s1 \<and> cycling_schedules T P s2 \<longrightarrow> s1 = s2) \<and>
   threading_schedules T P (by_threading_conflicts T P) \<and>
   cycling_schedules T P (by_cycling_conflicts T P)"
  by (auto simp: threading_schedules_function cycling_schedules_function
      dest: threading_schedules_unique cycling_schedules_unique)

theorem schedulers_deterministic_witness:
  "threading_schedules
     [Signed \<lparr>scope = [1::nat], messages = []\<rparr>, Signed \<lparr>scope = [1], messages = []\<rparr>
        :: (nat, unit, unit) pending_transaction]
     \<lparr>maxCyclesPerBlock = 1, maxThreadsPerCycle = 2\<rparr>
     (Inr \<lparr>schedule = \<lparr>cycles =
            [[\<lparr>transactions = [Signed \<lparr>scope = [1], messages = []\<rparr>]\<rparr>,
              \<lparr>transactions = [Signed \<lparr>scope = [1], messages = []\<rparr>]\<rparr>]]\<rparr>,
          forced_conflicts = []\<rparr>) \<and>
   cycling_schedules
     [Signed \<lparr>scope = [1::nat], messages = []\<rparr>, Signed \<lparr>scope = [1], messages = []\<rparr>
        :: (nat, unit, unit) pending_transaction]
     \<lparr>maxCyclesPerBlock = 1, maxThreadsPerCycle = 2\<rparr>
     (Inr \<lparr>schedule = \<lparr>cycles =
            [[\<lparr>transactions = [Signed \<lparr>scope = [1], messages = []\<rparr>,
                                Signed \<lparr>scope = [1], messages = []\<rparr>]\<rparr>]]\<rparr>,
          forced_conflicts = [0]\<rparr>)"
proof -
  have t: "by_threading_conflicts
     [Signed \<lparr>scope = [1::nat], messages = []\<rparr>, Signed \<lparr>scope = [1], messages = []\<rparr>
        :: (nat, unit, unit) pending_transaction]
     \<lparr>maxCyclesPerBlock = 1, maxThreadsPerCycle = 2\<rparr> =
     Inr \<lparr>schedule = \<lparr>cycles =
            [[\<lparr>transactions = [Signed \<lparr>scope = [1], messages = []\<rparr>]\<rparr>,
              \<lparr>transactions = [Signed \<lparr>scope = [1], messages = []\<rparr>]\<rparr>]]\<rparr>,
          forced_conflicts = []\<rparr>"
    by code_simp
  have c: "by_cycling_conflicts
     [Signed \<lparr>scope = [1::nat], messages = []\<rparr>, Signed \<lparr>scope = [1], messages = []\<rparr>
        :: (nat, unit, unit) pending_transaction]
     \<lparr>maxCyclesPerBlock = 1, maxThreadsPerCycle = 2\<rparr> =
     Inr \<lparr>schedule = \<lparr>cycles =
            [[\<lparr>transactions = [Signed \<lparr>scope = [1], messages = []\<rparr>,
                                Signed \<lparr>scope = [1], messages = []\<rparr>]\<rparr>]]\<rparr>,
          forced_conflicts = [0]\<rparr>"
    by code_simp
  from schedulers_deterministic
    [of "[Signed \<lparr>scope = [1::nat], messages = []\<rparr>, Signed \<lparr>scope = [1], messages = []\<rparr>
           :: (nat, unit, unit) pending_transaction]"
        "\<lparr>maxCyclesPerBlock = 1, maxThreadsPerCycle = 2\<rparr>"]
  show ?thesis
    unfolding t c by simp
qed

subsection \<open>Disjointness\<close>

























end
